theory Spec2Isabelle
  imports Main
begin

section \<open>Python primitives used by libsolresol.py\<close>

text \<open>
  Python strings are modelled as lists of 8-bit characters (\<^typ>\<open>string\<close>), Python's
  unbounded integers as \<^typ>\<open>int\<close>. An exception is a value \<open>Inl e\<close> of a sum type.
  Only the two exceptions the codec can raise on its own inputs are distinguished:
  \<open>KeyError\<close> (a failed lookup of an enum member by name, carrying the name) and
  \<open>ValueError\<close> (a failed \<open>int(...)\<close> conversion or a failed lookup of an enum member by
  value); \<open>IndexError\<close> is \<open>word[0]\<close> on an empty list. The code defines no exception
  class of its own: where a statement below speaks of a failure of a lookup or of a
  conversion, the failure is one of these.
\<close>

datatype error = KeyError string | ValueError | IndexError

text \<open>A list comprehension whose element expression may raise: the first exception wins.\<close>

fun map_err :: "('a \<Rightarrow> error + 'b) \<Rightarrow> 'a list \<Rightarrow> error + 'b list" where
  "map_err f [] = Inr []"
| "map_err f (x # xs) =
     (case f x of
        Inl e \<Rightarrow> Inl e
      | Inr y \<Rightarrow> (case map_err f xs of Inl e \<Rightarrow> Inl e | Inr ys \<Rightarrow> Inr (y # ys)))"

text \<open>The character of a digit \<open>0..9\<close>, and the value of a digit character.\<close>

definition digit_char :: "int \<Rightarrow> char" where
  "digit_char d = char_of (48 + d)"

definition digit_val :: "char \<Rightarrow> int option" where
  "digit_val c =
     (if (48::int) \<le> of_char c \<and> (of_char c :: int) \<le> 57 then Some (of_char c - 48) else None)"

text \<open>
  \<open>oct(n)\<close>: the prefix \<open>0o\<close> (\<open>-0o\<close> for a negative number) followed by the base-8 digits
  of the absolute value, no leading zero except for the number zero itself.
\<close>

function oct_digits :: "int \<Rightarrow> string" where
  "oct_digits n = (if n < 8 then [digit_char n] else oct_digits (n div 8) @ [digit_char (n mod 8)])"
  by pat_completeness auto
termination
  by (relation "measure nat") auto

declare oct_digits.simps [simp del]

definition oct :: "int \<Rightarrow> string" where
  "oct n = (if n < 0 then ''-0o'' @ oct_digits (- n) else ''0o'' @ oct_digits n)"

text \<open>\<open>str(n)\<close> of an integer: its decimal digits, with a minus sign when negative.\<close>

function dec_digits :: "int \<Rightarrow> string" where
  "dec_digits n = (if n < 10 then [digit_char n] else dec_digits (n div 10) @ [digit_char (n mod 10)])"
  by pat_completeness auto
termination
  by (relation "measure nat") auto

declare dec_digits.simps [simp del]

definition str :: "int \<Rightarrow> string" where
  "str n = (if n < 0 then CHR ''-'' # dec_digits (- n) else dec_digits n)"

text \<open>
  \<open>int(s, base)\<close> for \<open>base \<le> 10\<close>, on the strings the source passes to it: a single
  character of the input word, a concatenation of \<open>str(value)\<close> digits, or a slice of
  \<open>oct(n)[2:]\<close>. Such a string converts when it is a non-empty run of digits below the base
  and raises \<open>ValueError\<close> otherwise (the empty string, the letter \<open>o\<close> left over from the
  prefix of a negative number, any other character). Signs, blanks, underscores and base
  prefixes, which Python also accepts inside longer strings, do not occur there.
\<close>

fun int_digits :: "int \<Rightarrow> int \<Rightarrow> string \<Rightarrow> error + int" where
  "int_digits base acc [] = Inr acc"
| "int_digits base acc (c # cs) =
     (case digit_val c of
        None \<Rightarrow> Inl ValueError
      | Some d \<Rightarrow> if d < base then int_digits base (acc * base + d) cs else Inl ValueError)"

definition int_str :: "string \<Rightarrow> int \<Rightarrow> error + int" where
  "int_str s base = (if s = [] then Inl ValueError else int_digits base 0 s)"

text \<open>\<open>s.strip('0')\<close> removes the zero characters at both ends of the string.\<close>

definition strip0 :: "string \<Rightarrow> string" where
  "strip0 s = rev (dropWhile (\<lambda>c. c = CHR ''0'') (rev (dropWhile (\<lambda>c. c = CHR ''0'') s)))"

text \<open>\<open>s.ljust(n, c)\<close> pads on the right, and never shortens.\<close>

definition ljust :: "nat \<Rightarrow> char \<Rightarrow> string \<Rightarrow> string" where
  "ljust n c s = s @ replicate (n - length s) c"

text \<open>\<open>s.startswith(p)\<close>.\<close>

definition startswith :: "string \<Rightarrow> string \<Rightarrow> bool" where
  "startswith s p = (take (length p) s = p)"

text \<open>
  \<open>s.lower()\<close> on 8-bit characters: the letters \<open>A..Z\<close> and the accented capitals
  \<open>0xC0..0xDE\<close> (the multiplication sign \<open>0xD7\<close> apart) move up by 32.
\<close>

definition lower_char :: "char \<Rightarrow> char" where
  "lower_char c =
     (let n = (of_char c :: nat) in
      if (65 \<le> n \<and> n \<le> 90) \<or> (192 \<le> n \<and> n \<le> 222 \<and> n \<noteq> 215) then char_of (n + 32) else c)"

definition lower :: "string \<Rightarrow> string" where
  "lower s = map lower_char s"

text \<open>
  \<open>s.replace(old, new)\<close>: the non-overlapping occurrences of \<open>old\<close>, found from the left,
  are replaced; an empty \<open>old\<close> matches before every character and at the end.
\<close>

function str_replace :: "string \<Rightarrow> string \<Rightarrow> string \<Rightarrow> string" where
  "str_replace old new [] = (if old = [] then new else [])"
| "str_replace old new (c # cs) =
     (if old = [] then new @ c # str_replace old new cs
      else if startswith (c # cs) old then new @ str_replace old new (drop (length old) (c # cs))
      else c # str_replace old new cs)"
  by pat_completeness auto
termination
  by (relation "measure (\<lambda>(old, new, s). length s)") auto

text \<open>\<open>range(0, stop, step)\<close> for a positive step.\<close>

definition range0 :: "nat \<Rightarrow> nat \<Rightarrow> nat list" where
  "range0 stop step = map (\<lambda>k. k * step) [0 ..< (stop + step - 1) div step]"

text \<open>The slice \<open>s[i:j]\<close> for \<open>0 \<le> i \<le> j\<close>.\<close>

definition slice :: "string \<Rightarrow> nat \<Rightarrow> nat \<Rightarrow> string" where
  "slice s i j = take (j - i) (drop i s)"

section \<open>SolfegeSymbol\<close>

text \<open>
  The enum has seven members; every further name of the class body that repeats a value is
  an alias of the member that introduced the value. \<open>name_of\<close> is \<open>.name\<close>, \<open>value_of\<close> is
  \<open>.value\<close>.
\<close>

datatype SolfegeSymbol = DO | RE | MI | FA | SOL | LA | SI

fun value_of :: "SolfegeSymbol \<Rightarrow> int" where
  "value_of DO = 1"
| "value_of RE = 2"
| "value_of MI = 3"
| "value_of FA = 4"
| "value_of SOL = 5"
| "value_of LA = 6"
| "value_of SI = 7"

fun name_of :: "SolfegeSymbol \<Rightarrow> string" where
  "name_of DO = ''DO''"
| "name_of RE = ''RE''"
| "name_of MI = ''MI''"
| "name_of FA = ''FA''"
| "name_of SOL = ''SOL''"
| "name_of LA = ''LA''"
| "name_of SI = ''SI''"

text \<open>The names of the class body, in source order, each with the member it denotes.\<close>

definition members :: "(string \<times> SolfegeSymbol) list" where
  "members =
     [(''DO'', DO), (''Do'', DO), (''do'', DO), (''D'', DO), (''d'', DO), (''p'', DO), (''o'', DO),
      (''RE'', RE), (''Re'', RE), (''re'', RE), (''R'', RE), (''r'', RE), (''k'', RE), (''e'', RE),
      (''MI'', MI), (''Mi'', MI), (''mi'', MI), (''M'', MI), (''m'', MI), (''i'', MI),
      (''FA'', FA), (''Fa'', FA), (''fa'', FA), (''F'', FA), (''f'', FA), (''a'', FA),
      (''SOL'', SOL), (''Sol'', SOL), (''sol'', SOL), (''So'', SOL), (''so'', SOL), (''S'', SOL),
      (''s'', SOL), (''u'', SOL),
      (''LA'', LA), (''La'', LA), (''la'', LA), (''L'', LA), (''l'', LA), (''au'', LA),
      (''SI'', SI), (''Si'', SI), (''si'', SI), (''TI'', SI), (''Ti'', SI), (''ti'', SI),
      (''T'', SI), (''t'', SI), (''ai'', SI)]"

text \<open>\<open>SolfegeSymbol[s]\<close>: lookup by name, aliases included.\<close>

definition by_name :: "string \<Rightarrow> error + SolfegeSymbol" where
  "by_name s = (case map_of members s of None \<Rightarrow> Inl (KeyError s) | Some m \<Rightarrow> Inr m)"

text \<open>\<open>SolfegeSymbol(i)\<close>: lookup by value.\<close>

definition by_value :: "int \<Rightarrow> error + SolfegeSymbol" where
  "by_value i =
     (if i = 1 then Inr DO else if i = 2 then Inr RE else if i = 3 then Inr MI
      else if i = 4 then Inr FA else if i = 5 then Inr SOL else if i = 6 then Inr LA
      else if i = 7 then Inr SI else Inl ValueError)"

text \<open>
  The properties \<open>sescons\<close> and \<open>sesvowel\<close> index a table with \<open>value - 1\<close>, which is always
  in range.
\<close>

definition sescons :: "SolfegeSymbol \<Rightarrow> string" where
  "sescons s = [''pkmfslt'' ! nat (value_of s - 1)]"

definition sesvowel :: "SolfegeSymbol \<Rightarrow> string" where
  "sesvowel s = [''o'', ''e'', ''i'', ''a'', ''u'', ''ai'', ''au''] ! nat (value_of s - 1)"

section \<open>SolresolWord\<close>

text \<open>
  A \<open>SolresolWord\<close> object holds one attribute, the list \<open>word\<close> of symbols, and is
  identified with it. The constructor dispatches on the type of its argument and, for a
  string, on the syntax; the recognised syntax spellings are \<open>'ses'\<close>/\<open>'s'\<close>,
  \<open>'num'\<close>/\<open>'#'\<close>/\<open>0\<close> and \<open>'full'\<close>/\<open>'default'\<close>.
\<close>

type_synonym SolresolWord = "SolfegeSymbol list"

datatype word_arg =
    WSyms "SolfegeSymbol list"
  | WNames "string list"
  | WInts "int list"
  | WStr string
  | WInt int

datatype word_syntax = Ses | Num | Full

text \<open>The \<open>while\<close> loop of the full syntax, with \<open>self.word\<close> as the accumulator.\<close>

function full_loop :: "SolfegeSymbol list \<Rightarrow> string \<Rightarrow> error + SolfegeSymbol list" where
  "full_loop acc word =
     (if length word > 0 then
        (if startswith (lower word) ''sol'' \<and> \<not> startswith (lower word) ''sola''
         then full_loop (acc @ [SOL]) (drop 3 word)
         else (case by_name (take 2 word) of
                 Inl e \<Rightarrow> Inl e
               | Inr s \<Rightarrow> full_loop (acc @ [s]) (drop 2 word)))
      else Inr acc)"
  by pat_completeness auto
termination
  by (relation "measure (\<lambda>(acc, word). length word)") auto

declare full_loop.simps [simp del]

fun SolresolWord_init :: "word_arg \<Rightarrow> word_syntax \<Rightarrow> error + SolresolWord" where
  "SolresolWord_init (WSyms word) syn = (if word = [] then Inl IndexError else Inr word)"
| "SolresolWord_init (WNames word) syn =
     (if word = [] then Inl IndexError else map_err by_name word)"
| "SolresolWord_init (WInts word) syn =
     (if word = [] then Inl IndexError else map_err by_value word)"
| "SolresolWord_init (WStr word) Ses =
     map_err (\<lambda>s. by_name [s]) (str_replace ''au'' ''t'' (str_replace ''ai'' ''l'' word))"
| "SolresolWord_init (WStr word) Num =
     map_err (\<lambda>s. case int_str [s] 10 of Inl e \<Rightarrow> Inl e | Inr i \<Rightarrow> by_value i) (strip0 word)"
| "SolresolWord_init (WStr word) Full = full_loop [] word"
| "SolresolWord_init (WInt word) syn =
     map_err (\<lambda>s. case int_str [s] 10 of Inl e \<Rightarrow> Inl e | Inr i \<Rightarrow> by_value i)
       (strip0 (drop 2 (oct word)))"

text \<open>The properties \<open>ses\<close>, \<open>fulltext\<close> and \<open>value\<close>.\<close>

definition ses :: "SolresolWord \<Rightarrow> string" where
  "ses w =
     (if length w = 1 then sesvowel (w ! 0)
      else concat (map (\<lambda>(ix, ltr). if ix mod 2 = 0 then sescons ltr else sesvowel ltr)
                    (enumerate 0 w)))"

definition fulltext :: "SolresolWord \<Rightarrow> string" where
  "fulltext w = lower (concat (map name_of w))"

text \<open>The joined digits \<open>''.join(str(ltr.value) for ltr in self.word)\<close> of \<open>value\<close>.\<close>

definition digit_string :: "SolresolWord \<Rightarrow> string" where
  "digit_string w = concat (map (\<lambda>ltr. str (value_of ltr)) w)"

definition word_value :: "SolresolWord \<Rightarrow> error + int" where
  "word_value w = int_str (digit_string w) 8"

section \<open>Solresol\<close>

text \<open>
  A \<open>Solresol\<close> object holds the list \<open>words\<close>. Of the constructor, the branch for a list
  of word arguments and the branch for a packed integer are modelled; the branch for a
  text (removal of punctuation, splitting on blanks) is not needed below.
\<close>

type_synonym Solresol = "SolresolWord list"

datatype phrase_arg = WordList "word_arg list" | PInt int

fun Solresol_init :: "phrase_arg \<Rightarrow> word_syntax \<Rightarrow> error + Solresol" where
  "Solresol_init (WordList text) syn = map_err (\<lambda>word. SolresolWord_init word syn) text"
| "Solresol_init (PInt text) syn =
     (let sw = drop 2 (oct text) in
      map_err (\<lambda>i. case int_str (slice sw i (i + 5)) 8 of
                     Inl e \<Rightarrow> Inl e
                   | Inr v \<Rightarrow> SolresolWord_init (WInt v) Full)
        (range0 (length sw) 5))"

definition numlist :: "Solresol \<Rightarrow> error + int list" where
  "numlist ws = map_err word_value ws"

definition Solresol_value :: "Solresol \<Rightarrow> error + int" where
  "Solresol_value ws =
     (case numlist ws of
        Inl e \<Rightarrow> Inl e
      | Inr nums \<Rightarrow> int_str (concat (map (\<lambda>num. ljust 5 (CHR ''0'') (drop 2 (oct num))) nums)) 8)"

section \<open>Notions used in the statements\<close>

text \<open>
  The slices that the scan of the full syntax hands to the lookup by name: at a remainder
  that does not take the three-letter branch, the slice \<open>word[:2]\<close>, which is the single
  last character when only one is left.
\<close>

function lookup_slices :: "string \<Rightarrow> string list" where
  "lookup_slices word =
     (if length word > 0 then
        (if startswith (lower word) ''sol'' \<and> \<not> startswith (lower word) ''sola''
         then lookup_slices (drop 3 word)
         else take 2 word # lookup_slices (drop 2 word))
      else [])"
  by pat_completeness auto
termination
  by (relation "measure length") auto

declare lookup_slices.simps [simp del]

text \<open>Cutting a string into pieces of five characters from the left; the last may be shorter.\<close>

function chunks_left :: "string \<Rightarrow> string list" where
  "chunks_left s = (if s = [] then [] else take 5 s # chunks_left (drop 5 s))"
  by pat_completeness auto
termination
  by (relation "measure length") auto

declare chunks_left.simps [simp del]

text \<open>
  The chunking that pads with zeros on the left to the next multiple of five first, so that
  the pieces are aligned to the right end of the string.
\<close>

definition chunks_right_padded :: "string \<Rightarrow> string list" where
  "chunks_right_padded s = chunks_left (replicate ((5 - length s mod 5) mod 5) (CHR ''0'') @ s)"

text \<open>One chunk decoded as a word through the constructor's integer branch.\<close>

definition decode_chunk :: "string \<Rightarrow> error + SolresolWord" where
  "decode_chunk c =
     (case int_str c 8 of Inl e \<Rightarrow> Inl e | Inr v \<Rightarrow> SolresolWord_init (WInt v) Full)"

text \<open>Padding with zeros on the left to a given width.\<close>

definition zfill :: "nat \<Rightarrow> string \<Rightarrow> string" where
  "zfill n s = replicate (n - length s) (CHR ''0'') @ s"

text \<open>The number denoted by a list of base-8 digits, most significant first.\<close>

definition octal_value :: "int \<Rightarrow> int list \<Rightarrow> int" where
  "octal_value acc ds = foldl (\<lambda>a d. a * 8 + d) acc ds"

text \<open>The digit character of a symbol.\<close>

definition sym_char :: "SolfegeSymbol \<Rightarrow> char" where
  "sym_char s = digit_char (value_of s)"

text \<open>
  The letters of the consonant and vowel transliteration, alternating from a given phase
  (\<open>True\<close>: a consonant comes next), and the single letter that stands for a symbol once
  the two digraphs have been rewritten.
\<close>

fun alternate :: "bool \<Rightarrow> SolfegeSymbol list \<Rightarrow> string" where
  "alternate b [] = []"
| "alternate b (x # xs) = (if b then sescons x else sesvowel x) @ alternate (\<not> b) xs"

fun alternate_ai :: "bool \<Rightarrow> SolfegeSymbol list \<Rightarrow> string" where
  "alternate_ai b [] = []"
| "alternate_ai b (x # xs) =
     (if b then sescons x else if x = LA then ''l'' else sesvowel x) @ alternate_ai (\<not> b) xs"

fun ses_letter :: "bool \<Rightarrow> SolfegeSymbol \<Rightarrow> char" where
  "ses_letter b x =
     (if b then hd (sescons x) else if x = LA then CHR ''l'' else if x = SI then CHR ''t''
      else hd (sesvowel x))"

fun alternate_letters :: "bool \<Rightarrow> SolfegeSymbol list \<Rightarrow> string" where
  "alternate_letters b [] = []"
| "alternate_letters b (x # xs) = ses_letter b x # alternate_letters (\<not> b) xs"

text \<open>The digits a word contributes to the packed phrase: its own, then zeros up to five.\<close>

definition padded_digits :: "SolresolWord \<Rightarrow> int list" where
  "padded_digits w = map value_of w @ replicate (5 - length w) 0"

section \<open>Octal digits\<close>

lemma digit_val_digit_char: "0 \<le> d \<Longrightarrow> d < 10 \<Longrightarrow> digit_val (digit_char d) = Some d"
  by (simp add: digit_val_def digit_char_def)

lemma digit_char_simps:
  "digit_char 0 = CHR ''0''" "digit_char 1 = CHR ''1''" "digit_char 2 = CHR ''2''"
  "digit_char 3 = CHR ''3''" "digit_char 4 = CHR ''4''" "digit_char 5 = CHR ''5''"
  "digit_char 6 = CHR ''6''" "digit_char 7 = CHR ''7''"
  by code_simp+

lemma int_digits_octal:
  "\<forall>d\<in>set ds. 0 \<le> d \<and> d < 8 \<Longrightarrow>
   int_digits 8 acc (map digit_char ds) = Inr (octal_value acc ds)"
  by (induction ds arbitrary: acc) (simp_all add: octal_value_def digit_val_digit_char)

lemma octal_value_snoc: "octal_value acc (ds @ [d]) = octal_value acc ds * 8 + d"
  by (simp add: octal_value_def)

lemma octal_value_pos: "0 < acc \<Longrightarrow> \<forall>d\<in>set ds. 0 \<le> d \<Longrightarrow> 0 < octal_value acc ds"
proof (induction ds arbitrary: acc)
  case Nil
  then show ?case by (simp add: octal_value_def)
next
  case (Cons d ds)
  then have "0 < acc * 8 + d" by simp
  then have "0 < octal_value (acc * 8 + d) ds" using Cons.prems by (intro Cons.IH) simp_all
  then show ?case by (simp add: octal_value_def)
qed

lemma octal_value_pos_hd:
  assumes "ds \<noteq> []" "0 < hd ds" "\<forall>d\<in>set ds. 0 \<le> d"
  shows "0 < octal_value 0 ds"
proof -
  obtain d ds' where ds: "ds = d # ds'" using assms(1) by (cases ds) auto
  with assms have "0 < d" "\<forall>d\<in>set ds'. 0 \<le> d" by simp_all
  then have "0 < octal_value d ds'" by (rule octal_value_pos)
  then show ?thesis using ds by (simp add: octal_value_def)
qed

lemma oct_digits_octal:
  "ds \<noteq> [] \<Longrightarrow> 0 < hd ds \<Longrightarrow> \<forall>d\<in>set ds. 0 \<le> d \<and> d < 8 \<Longrightarrow>
   oct_digits (octal_value 0 ds) = map digit_char ds"
proof (induction ds rule: rev_induct)
  case Nil
  then show ?case by simp
next
  case (snoc d ds)
  show ?case
  proof (cases "ds = []")
    case True
    with snoc.prems show ?thesis
      by (simp add: octal_value_def oct_digits.simps)
  next
    case False
    with snoc.prems have hd: "0 < hd ds" and small: "\<forall>d\<in>set ds. 0 \<le> d \<and> d < 8"
      and d: "0 \<le> d" "d < 8"
      by simp_all
    from small have "\<forall>d\<in>set ds. 0 \<le> d" by simp
    with False hd have pos: "0 < octal_value 0 ds" by (rule octal_value_pos_hd)
    have ih: "oct_digits (octal_value 0 ds) = map digit_char ds"
      using snoc.IH False hd small by simp
    have "oct_digits (octal_value 0 ds * 8 + d) =
          oct_digits (octal_value 0 ds) @ [digit_char d]"
      using pos d by (subst oct_digits.simps) simp
    with ih show ?thesis by (simp add: octal_value_snoc)
  qed
qed
section \<open>Comprehensions, stripping and single digits\<close>

lemma map_err_all_Inr: "\<forall>x\<in>set xs. f x = Inr (g x) \<Longrightarrow> map_err f xs = Inr (map g xs)"
  by (induction xs) simp_all

lemma map_err_id: "\<forall>x\<in>set xs. f x = Inr x \<Longrightarrow> map_err f xs = Inr xs"
  using map_err_all_Inr [of xs f "\<lambda>x. x"] by simp

lemma map_err_length: "map_err f xs = Inr ys \<Longrightarrow> length ys = length xs"
  by (induction xs arbitrary: ys) (auto split: sum.splits)

lemma map_err_map: "map_err f (map g xs) = map_err (\<lambda>x. f (g x)) xs"
  by (induction xs) (auto split: sum.splits)

lemma strip0_pad: "CHR ''0'' \<notin> set s \<Longrightarrow> strip0 (s @ replicate k (CHR ''0'')) = s"
proof -
  assume nz: "CHR ''0'' \<notin> set s"
  have a: "dropWhile (\<lambda>c. c = CHR ''0'') (s @ replicate k (CHR ''0'')) =
           (if s = [] then [] else s @ replicate k (CHR ''0''))"
    using nz by (cases s) (auto simp: dropWhile_eq_Nil_conv)
  have b: "dropWhile (\<lambda>c. c = CHR ''0'') (replicate k (CHR ''0'') @ rev s) = rev s"
  proof -
    have "dropWhile (\<lambda>c. c = CHR ''0'') (rev s) = rev s"
      using nz by (cases "rev s") (auto simp: rev_eq_Cons_iff)
    moreover have "dropWhile (\<lambda>c. c = CHR ''0'') (replicate k (CHR ''0'') @ rev s) =
                   dropWhile (\<lambda>c. c = CHR ''0'') (rev s)"
      by (rule dropWhile_append2) simp
    ultimately show ?thesis by simp
  qed
  show ?thesis
  proof (cases "s = []")
    case True
    then show ?thesis using a by (simp add: strip0_def)
  next
    case False
    then show ?thesis using a b by (simp add: strip0_def)
  qed
qed

lemma set_strip0: "set (strip0 s) \<subseteq> set s"
  by (auto simp: strip0_def dest!: set_dropWhileD)

lemma value_of_range: "0 < value_of s \<and> value_of s < 8"
  by (cases s) simp_all

lemma sym_char_simps:
  "sym_char DO = CHR ''1''" "sym_char RE = CHR ''2''" "sym_char MI = CHR ''3''"
  "sym_char FA = CHR ''4''" "sym_char SOL = CHR ''5''" "sym_char LA = CHR ''6''"
  "sym_char SI = CHR ''7''"
  by (simp_all add: sym_char_def digit_char_simps)

lemma str_value_of: "str (value_of s) = [sym_char s]"
  by (cases s) (simp_all add: str_def sym_char_def dec_digits.simps)

lemma digit_string_eq: "digit_string w = map sym_char w"
  by (induction w) (simp_all add: digit_string_def str_value_of)

lemma sym_char_map: "map sym_char w = map digit_char (map value_of w)"
  by (simp add: sym_char_def)

lemma sym_char_not_0: "CHR ''0'' \<notin> set (map sym_char w)"
proof (induction w)
  case Nil
  show ?case by simp
next
  case (Cons s w)
  then show ?case by (cases s) (simp_all add: sym_char_simps)
qed

lemma decode_sym_char:
  "(case int_str [sym_char s] 10 of Inl e \<Rightarrow> Inl e | Inr i \<Rightarrow> by_value i) = Inr s"
  by (cases s) (simp_all add: sym_char_simps int_str_def digit_val_def by_value_def)

lemma decode_sym_chars:
  "map_err (\<lambda>s. case int_str [s] 10 of Inl e \<Rightarrow> Inl e | Inr i \<Rightarrow> by_value i) (map sym_char w) =
   Inr w"
  by (induction w) (simp_all add: decode_sym_char)

lemma word_value_eq: "w \<noteq> [] \<Longrightarrow> word_value w = Inr (octal_value 0 (map value_of w))"
proof -
  assume "w \<noteq> []"
  moreover have "\<forall>d\<in>set (map value_of w). 0 \<le> d \<and> d < 8"
    using value_of_range by (auto intro: less_imp_le)
  then have "int_digits 8 0 (map digit_char (map value_of w)) = Inr (octal_value 0 (map value_of w))"
    by (rule int_digits_octal)
  ultimately show ?thesis
    unfolding word_value_def int_str_def digit_string_eq sym_char_map by simp
qed

lemma oct_nonneg: "0 \<le> n \<Longrightarrow> drop 2 (oct n) = oct_digits n"
  by (simp add: oct_def)

lemma decode_chunk_pad:
  assumes "w \<noteq> []"
  shows "decode_chunk (map sym_char w @ replicate k (CHR ''0'')) = Inr w"
proof -
  let ?ds = "map value_of w @ replicate k 0"
  have str: "map sym_char w @ replicate k (CHR ''0'') = map digit_char ?ds"
    by (simp add: sym_char_map digit_char_simps)
  have small: "\<forall>d\<in>set ?ds. 0 \<le> d \<and> d < 8"
    using value_of_range by (auto intro: less_imp_le)
  have ne: "?ds \<noteq> []" using assms by simp
  have hd: "0 < hd ?ds" using assms value_of_range [of "hd w"] by (cases w) simp_all
  have pos: "0 \<le> octal_value 0 ?ds"
    using octal_value_pos_hd [OF ne hd] small by simp
  have v: "int_str (map digit_char ?ds) 8 = Inr (octal_value 0 ?ds)"
    using int_digits_octal [OF small, of 0] ne by (simp add: int_str_def)
  have o: "oct_digits (octal_value 0 ?ds) = map digit_char ?ds"
    using oct_digits_octal [OF ne hd small] .
  have s: "strip0 (map digit_char ?ds) = map sym_char w"
    unfolding str [symmetric] using sym_char_not_0 by (rule strip0_pad)
  have "decode_chunk (map digit_char ?ds) = SolresolWord_init (WInt (octal_value 0 ?ds)) Full"
    unfolding decode_chunk_def v by simp
  also have "\<dots> = map_err (\<lambda>s. case int_str [s] 10 of Inl e \<Rightarrow> Inl e | Inr i \<Rightarrow> by_value i)
                     (strip0 (map digit_char ?ds))"
    unfolding SolresolWord_init.simps oct_nonneg [OF pos] o ..
  also have "\<dots> = Inr w" unfolding s decode_sym_chars ..
  finally show ?thesis unfolding str .
qed

section \<open>Chunks and packed phrases\<close>

lemma range0_slices: "map (\<lambda>i. slice s i (i + 5)) (range0 (length s) 5) = chunks_left s"
proof (induction s rule: chunks_left.induct)
  case (1 s)
  show ?case
  proof (cases "s = []")
    case True
    then show ?thesis by (simp add: range0_def chunks_left.simps)
  next
    case False
    define n where "n = (length (drop 5 s) + 5 - 1) div 5"
    have len: "(length s + 5 - 1) div 5 = Suc n"
      using False unfolding n_def by (cases s) (simp_all, arith)
    have upt: "[0 ..< Suc n] = 0 # map Suc [0 ..< n]"
      by (simp add: upt_conv_Cons map_Suc_upt del: upt_Suc)
    have sl: "\<And>k. slice s (Suc k * 5) (Suc k * 5 + 5) = slice (drop 5 s) (k * 5) (k * 5 + 5)"
      by (simp add: slice_def add.commute)
    have "map (\<lambda>i. slice s i (i + 5)) (range0 (length s) 5) =
          slice s 0 5 # map (\<lambda>k. slice s (Suc k * 5) (Suc k * 5 + 5)) [0 ..< n]"
      unfolding range0_def len upt by (simp add: comp_def)
    also have "\<dots> = take 5 s # map (\<lambda>i. slice (drop 5 s) i (i + 5)) (range0 (length (drop 5 s)) 5)"
      unfolding sl range0_def n_def by (simp add: slice_def comp_def)
    also have "\<dots> = take 5 s # chunks_left (drop 5 s)"
      using "1.IH" [OF False] by simp
    also have "\<dots> = chunks_left s"
      using False by (subst (2) chunks_left.simps) simp
    finally show ?thesis .
  qed
qed

lemma Solresol_init_chunks:
  "Solresol_init (PInt n) syn = map_err decode_chunk (chunks_left (drop 2 (oct n)))"
proof -
  have "Solresol_init (PInt n) syn =
        map_err decode_chunk (map (\<lambda>i. slice (drop 2 (oct n)) i (i + 5))
                                (range0 (length (drop 2 (oct n))) 5))"
    by (simp add: Let_def map_err_map decode_chunk_def)
  then show ?thesis unfolding range0_slices .
qed

lemma chunks_left_concat:
  "\<forall>c\<in>set cs. length c = 5 \<Longrightarrow> chunks_left (concat cs) = cs"
proof (induction cs)
  case Nil
  then show ?case by (simp add: chunks_left.simps)
next
  case (Cons c cs)
  then have c: "length c = 5" and ih: "chunks_left (concat cs) = cs" by simp_all
  from c have "c \<noteq> []" by auto
  then have "chunks_left (c @ concat cs) = take 5 (c @ concat cs) # chunks_left (drop 5 (c @ concat cs))"
    by (subst chunks_left.simps) simp
  with c ih show ?case by simp
qed

lemma padded_chunk:
  "map digit_char (padded_digits w) = ljust 5 (CHR ''0'') (digit_string w)"
  by (simp add: padded_digits_def ljust_def digit_string_eq sym_char_map digit_char_simps)

lemma word_oct:
  assumes "w \<noteq> []"
  shows "drop 2 (oct (octal_value 0 (map value_of w))) = digit_string w"
proof -
  let ?ds = "map value_of w"
  have ne: "?ds \<noteq> []" using assms by simp
  have hd: "0 < hd ?ds" using assms value_of_range [of "hd w"] by (cases w) simp_all
  have small: "\<forall>d\<in>set ?ds. 0 \<le> d \<and> d < 8" using value_of_range by (auto intro: less_imp_le)
  have "0 \<le> octal_value 0 ?ds" using octal_value_pos_hd [OF ne hd] small by simp
  then have "drop 2 (oct (octal_value 0 ?ds)) = oct_digits (octal_value 0 ?ds)"
    by (rule oct_nonneg)
  also have "\<dots> = map digit_char ?ds" using ne hd small by (rule oct_digits_octal)
  finally show ?thesis by (simp add: digit_string_eq sym_char_map)
qed

lemma padded_facts:
  assumes "ws \<noteq> []" "\<forall>w\<in>set ws. w \<noteq> []"
  shows "concat (map padded_digits ws) \<noteq> []"
    and "0 < hd (concat (map padded_digits ws))"
    and "\<forall>d\<in>set (concat (map padded_digits ws)). 0 \<le> d \<and> d < 8"
proof -
  obtain w ws' where ws: "ws = w # ws'" using assms(1) by (cases ws) auto
  with assms(2) obtain x w' where w: "w = x # w'" by (cases w) auto
  show "concat (map padded_digits ws) \<noteq> []" by (simp add: ws w padded_digits_def)
  show "0 < hd (concat (map padded_digits ws))"
    using value_of_range [of x] by (simp add: ws w padded_digits_def)
  show "\<forall>d\<in>set (concat (map padded_digits ws)). 0 \<le> d \<and> d < 8"
    using value_of_range by (auto simp: padded_digits_def intro: less_imp_le)
qed

lemma Solresol_value_eq:
  assumes "ws \<noteq> []" "\<forall>w\<in>set ws. w \<noteq> []"
  shows "Solresol_value ws = Inr (octal_value 0 (concat (map padded_digits ws)))"
proof -
  have nl: "numlist ws = Inr (map (\<lambda>w. octal_value 0 (map value_of w)) ws)"
    unfolding numlist_def using assms(2) by (intro map_err_all_Inr) (simp add: word_value_eq)
  have "concat (map (\<lambda>num. ljust 5 (CHR ''0'') (drop 2 (oct num)))
                 (map (\<lambda>w. octal_value 0 (map value_of w)) ws)) =
        concat (map (\<lambda>w. map digit_char (padded_digits w)) ws)"
    using assms(2) by (simp add: comp_def word_oct padded_chunk cong: map_cong)
  also have "\<dots> = map digit_char (concat (map padded_digits ws))"
    by (simp add: map_concat comp_def)
  finally have cat: "concat (map (\<lambda>num. ljust 5 (CHR ''0'') (drop 2 (oct num)))
                 (map (\<lambda>w. octal_value 0 (map value_of w)) ws)) =
        map digit_char (concat (map padded_digits ws))" .
  have "int_str (map digit_char (concat (map padded_digits ws))) 8 =
        Inr (octal_value 0 (concat (map padded_digits ws)))"
    using padded_facts(1,3) [OF assms] int_digits_octal [of "concat (map padded_digits ws)" 0]
    by (simp add: int_str_def)
  then show ?thesis unfolding Solresol_value_def nl sum.case cat .
qed

lemma Solresol_value_oct:
  assumes "ws \<noteq> []" "\<forall>w\<in>set ws. w \<noteq> []"
  shows "drop 2 (oct (octal_value 0 (concat (map padded_digits ws)))) =
         concat (map (\<lambda>w. ljust 5 (CHR ''0'') (digit_string w)) ws)"
proof -
  let ?ds = "concat (map padded_digits ws)"
  note f = padded_facts [OF assms]
  have "0 \<le> octal_value 0 ?ds" using octal_value_pos_hd [OF f(1,2)] f(3) by simp
  then have "drop 2 (oct (octal_value 0 ?ds)) = oct_digits (octal_value 0 ?ds)"
    by (rule oct_nonneg)
  also have "\<dots> = map digit_char ?ds" using f by (rule oct_digits_octal)
  also have "\<dots> = concat (map (\<lambda>w. ljust 5 (CHR ''0'') (digit_string w)) ws)"
    by (simp add: map_concat comp_def padded_chunk)
  finally show ?thesis .
qed

lemma phrase_roundtrip_aux:
  assumes "ws \<noteq> []" "\<forall>w\<in>set ws. w \<noteq> [] \<and> length w \<le> 5"
  shows "\<exists>n. Solresol_value ws = Inr n \<and> Solresol_init (PInt n) syn = Inr ws"
proof -
  let ?n = "octal_value 0 (concat (map padded_digits ws))"
  have ne: "\<forall>w\<in>set ws. w \<noteq> []" using assms(2) by simp
  have v: "Solresol_value ws = Inr ?n" using assms(1) ne by (rule Solresol_value_eq)
  have o: "drop 2 (oct ?n) = concat (map (\<lambda>w. ljust 5 (CHR ''0'') (digit_string w)) ws)"
    using assms(1) ne by (rule Solresol_value_oct)
  have five: "\<forall>c\<in>set (map (\<lambda>w. ljust 5 (CHR ''0'') (digit_string w)) ws). length c = 5"
    using assms(2) by (auto simp: ljust_def digit_string_eq)
  have "Solresol_init (PInt ?n) syn =
        map_err decode_chunk (map (\<lambda>w. ljust 5 (CHR ''0'') (digit_string w)) ws)"
    unfolding Solresol_init_chunks o chunks_left_concat [OF five] ..
  also have "\<dots> = map_err (\<lambda>w. decode_chunk (ljust 5 (CHR ''0'') (digit_string w))) ws"
    by (rule map_err_map)
  also have "\<dots> = Inr ws"
    using ne by (intro map_err_id) (simp add: ljust_def digit_string_eq decode_chunk_pad)
  finally show ?thesis using v by blast
qed

lemma word_roundtrip_aux:
  assumes "w \<noteq> []"
  shows "\<exists>v. word_value w = Inr v \<and> SolresolWord_init (WInt v) syn = Inr w"
proof -
  let ?v = "octal_value 0 (map value_of w)"
  have v: "word_value w = Inr ?v" using assms by (rule word_value_eq)
  have "decode_chunk (map sym_char w @ replicate 0 (CHR ''0'')) = Inr w"
    using assms by (rule decode_chunk_pad)
  moreover have "int_str (map sym_char w) 8 = Inr ?v"
    using v by (simp add: word_value_def digit_string_eq)
  ultimately have "SolresolWord_init (WInt ?v) Full = Inr w"
    by (simp add: decode_chunk_def)
  then have "SolresolWord_init (WInt ?v) syn = Inr w" by simp
  with v show ?thesis by blast
qed

section \<open>The packed encoding of a word\<close>

text \<open>
  C5. For every word \<open>w\<close> with at least one symbol, of any length, the property \<open>value\<close>
  returns an integer, and the constructor applied to that integer yields exactly the symbol
  sequence of \<open>w\<close>.
\<close>

theorem word_packed_roundtrip:
  "w \<noteq> [] \<Longrightarrow> \<exists>v. word_value w = Inr v \<and> SolresolWord_init (WInt v) syn = Inr w"
  by (rule word_roundtrip_aux)

theorem word_packed_roundtrip_witness:
  "[DO, RE, MI, FA, SOL, LA, SI] \<noteq> [] \<and>
   (\<exists>v. word_value [DO, RE, MI, FA, SOL, LA, SI] = Inr v \<and>
        SolresolWord_init (WInt v) Full = Inr [DO, RE, MI, FA, SOL, LA, SI])"
  using word_packed_roundtrip [of "[DO, RE, MI, FA, SOL, LA, SI]" Full] by blast

section \<open>The packed encoding of a phrase\<close>

text \<open>
  C1, as stated, fails at the phrase with no words: all of its words have at most five
  symbols, but \<open>value\<close> joins no digits at all and \<open>int('', 8)\<close> raises \<open>ValueError\<close>, so
  there is no packed integer to decode.
\<close>

theorem empty_phrase_value_counterexample: "Solresol_value [] = Inl ValueError"
  by code_simp

text \<open>
  C1, amended. For every phrase with at least one word, all of whose words have between one
  and five symbols, \<open>value\<close> returns an integer and the constructor applied to that integer
  yields a phrase with the same words, symbol by symbol.
\<close>

theorem phrase_packed_roundtrip:
  "ws \<noteq> [] \<Longrightarrow> \<forall>w\<in>set ws. w \<noteq> [] \<and> length w \<le> 5 \<Longrightarrow>
   \<exists>n. Solresol_value ws = Inr n \<and> Solresol_init (PInt n) syn = Inr ws"
  by (rule phrase_roundtrip_aux)

theorem phrase_packed_roundtrip_witness:
  "[[DO, DO, MI], [SOL], [RE, FA]] \<noteq> [] \<and>
   (\<exists>n. Solresol_value [[DO, DO, MI], [SOL], [RE, FA]] = Inr n \<and>
        Solresol_init (PInt n) Full = Inr [[DO, DO, MI], [SOL], [RE, FA]])"
proof -
  have a: "[[DO, DO, MI], [SOL], [RE, FA]] \<noteq> []" by simp
  have b: "\<forall>w\<in>set [[DO, DO, MI], [SOL], [RE, FA]]. w \<noteq> [] \<and> length w \<le> 5" by simp
  show ?thesis using a phrase_packed_roundtrip [OF a b, of Full] by (intro conjI)
qed

text \<open>
  C2, as stated, fails: for the phrase of one word of six symbols \<open>value\<close> raises nothing
  and returns the integer \<open>0o111111\<close>.
\<close>

theorem long_word_value_counterexample:
  "Solresol_value [[DO, DO, DO, DO, DO, DO]] = Inr 37449"
  by code_simp

text \<open>
  C2, amended. Applied to a phrase of non-empty words that contains a word with more than
  five symbols, \<open>value\<close> does not fail: it returns the integer whose base-8 digits are the
  digit strings of the words in order, each padded with zeros on the right up to five digits
  and left as it is when longer.
\<close>

theorem long_word_value_returns:
  assumes "\<forall>w\<in>set ws. w \<noteq> []" and "\<exists>w\<in>set ws. 5 < length w"
  shows "\<exists>n. Solresol_value ws = Inr n \<and>
             drop 2 (oct n) = concat (map (\<lambda>w. ljust 5 (CHR ''0'') (digit_string w)) ws)"
proof -
  from assms(2) have ne: "ws \<noteq> []" by auto
  show ?thesis
    using Solresol_value_eq [OF ne assms(1)] Solresol_value_oct [OF ne assms(1)]
    by (intro exI conjI)
qed

theorem long_word_value_returns_witness:
  "5 < length [RE, RE, RE, RE, RE, RE] \<and>
   (\<exists>n. Solresol_value [[DO], [RE, RE, RE, RE, RE, RE]] = Inr n \<and>
        drop 2 (oct n) =
        concat (map (\<lambda>w. ljust 5 (CHR ''0'') (digit_string w)) [[DO], [RE, RE, RE, RE, RE, RE]]))"
proof -
  have a: "\<forall>w\<in>set [[DO], [RE, RE, RE, RE, RE, RE]]. w \<noteq> []" by simp
  have b: "\<exists>w\<in>set [[DO], [RE, RE, RE, RE, RE, RE]]. 5 < length w" by simp
  show ?thesis using long_word_value_returns [OF a b] by simp
qed

text \<open>
  C3, as stated, fails: the phrase \<open>[[1],[7,7]]\<close> encodes to \<open>0o1000077000\<close>, whose
  rendering padded to ten digits is not \<open>0000100077\<close>.
\<close>

theorem scenario3_counterexample:
  "Solresol_value [[DO], [SI, SI]] = Inr 134249984 \<and>
   zfill 10 (drop 2 (oct 134249984)) \<noteq> ''0000100077''"
  by code_simp

text \<open>
  C3, amended. The phrase \<open>[[1],[7,7]]\<close> encodes to the integer whose base-8 rendering,
  padded to ten digits, is \<open>1000077000\<close> (the digits of each word padded with zeros on the
  right to five digits, in word order), and decoding that integer gives the two words back.
\<close>

theorem scenario3_right_padded:
  "Solresol_value [[DO], [SI, SI]] = Inr 134249984 \<and>
   zfill 10 (drop 2 (oct 134249984)) = ''1000077000'' \<and>
   Solresol_init (PInt 134249984) Full = Inr [[DO], [SI, SI]]"
  by code_simp

text \<open>
  C4, as stated, fails at \<open>n = 0o123456\<close>: the constructor cuts \<open>123456\<close> into \<open>12345\<close> and
  \<open>6\<close>, whereas padding on the left and cutting from the right gives \<open>00001\<close> and \<open>23456\<close>.
\<close>

theorem right_aligned_chunks_counterexample:
  "Solresol_init (PInt 42798) Full = Inr [[DO, RE, MI, FA, SOL], [LA]] \<and>
   map_err decode_chunk (chunks_right_padded (drop 2 (oct 42798))) =
     Inr [[DO], [RE, MI, FA, SOL, LA]] \<and>
   Solresol_init (PInt 42798) Full \<noteq>
     map_err decode_chunk (chunks_right_padded (drop 2 (oct 42798)))"
  by code_simp

text \<open>
  C4, amended. For every non-negative integer \<open>n\<close>, constructing a phrase from \<open>n\<close> renders
  \<open>n\<close> in base 8, cuts the string, without padding it, into pieces of five characters from
  the left (the last piece holding the one to five characters that remain), and decodes
  each piece on its own as a word through the integer branch of the word constructor.
\<close>

theorem phrase_decode_left_chunks:
  "0 \<le> n \<Longrightarrow> Solresol_init (PInt n) syn = map_err decode_chunk (chunks_left (oct_digits n))"
  using Solresol_init_chunks [of n syn] by (simp add: oct_def)

theorem phrase_decode_left_chunks_witness:
  "(0::int) \<le> 2054353 \<and>
   Solresol_init (PInt 2054353) Full = map_err decode_chunk (chunks_left (oct_digits 2054353))"
  using phrase_decode_left_chunks [of 2054353 Full] by simp

section \<open>Words from packed integers and from numeric strings\<close>

lemma oct_digits_chars: "0 \<le> n \<Longrightarrow> \<forall>c\<in>set (oct_digits n). \<exists>d. 0 \<le> d \<and> d < 8 \<and> c = digit_char d"
proof (induction n rule: oct_digits.induct)
  case (1 n)
  show ?case
  proof (cases "n < 8")
    case True
    with "1.prems" show ?thesis by (subst oct_digits.simps) auto
  next
    case False
    then have "0 \<le> n div 8" by simp
    with "1.IH" False have ih: "\<forall>c\<in>set (oct_digits (n div 8)). \<exists>d. 0 \<le> d \<and> d < 8 \<and> c = digit_char d"
      by simp
    have "0 \<le> n mod 8 \<and> n mod 8 < 8" by simp
    then have "\<exists>d. 0 \<le> d \<and> d < 8 \<and> digit_char (n mod 8) = digit_char d" by blast
    with ih False show ?thesis by (subst oct_digits.simps) auto
  qed
qed

lemma decode_digit_char:
  "0 \<le> d \<Longrightarrow> d < 8 \<Longrightarrow>
   (case int_str [digit_char d] 10 of Inl e \<Rightarrow> Inl e | Inr i \<Rightarrow> by_value i) =
     (if d = 0 then Inl ValueError else by_value d)"
  by (simp add: int_str_def digit_val_digit_char by_value_def)

lemma digit_char_eq_0: "0 \<le> d \<Longrightarrow> d < 8 \<Longrightarrow> digit_char d = CHR ''0'' \<longleftrightarrow> d = 0"
  using digit_val_digit_char [of d] digit_val_digit_char [of 0]
  by (auto simp: digit_char_simps)

lemma by_value_digit: "0 < d \<Longrightarrow> d < 8 \<Longrightarrow> \<exists>s. by_value d = Inr s"
  by (simp add: by_value_def)

lemma decode_octal_char:
  assumes "0 \<le> d" "d < 8"
  shows "(case int_str [digit_char d] 10 of Inl e \<Rightarrow> Inl e | Inr i \<Rightarrow> by_value i) = Inl ValueError
           \<and> digit_char d = CHR ''0''
         \<or> (\<exists>s. (case int_str [digit_char d] 10 of Inl e \<Rightarrow> Inl e | Inr i \<Rightarrow> by_value i) = Inr s)
           \<and> digit_char d \<noteq> CHR ''0''"
proof (cases "d = 0")
  case True
  then show ?thesis using decode_digit_char [OF assms] by (simp add: digit_char_simps)
next
  case False
  with assms have "0 < d" by simp
  then obtain s where "by_value d = Inr s" using by_value_digit assms(2) by blast
  then show ?thesis
    using decode_digit_char [OF assms] False digit_char_eq_0 [OF assms] by simp
qed

lemma map_err_octal:
  assumes "\<forall>c\<in>set cs. \<exists>d. 0 \<le> d \<and> d < 8 \<and> c = digit_char d"
  shows "map_err (\<lambda>s. case int_str [s] 10 of Inl e \<Rightarrow> Inl e | Inr i \<Rightarrow> by_value i) cs =
           Inl ValueError \<and> CHR ''0'' \<in> set cs
         \<or> (\<exists>w. map_err (\<lambda>s. case int_str [s] 10 of Inl e \<Rightarrow> Inl e | Inr i \<Rightarrow> by_value i) cs = Inr w
                 \<and> length w = length cs)
           \<and> CHR ''0'' \<notin> set cs"
  using assms
proof (induction cs)
  case Nil
  show ?case by simp
next
  case (Cons c cs)
  then obtain d where d: "0 \<le> d" "d < 8" "c = digit_char d" by auto
  from Cons have ih: "map_err (\<lambda>s. case int_str [s] 10 of Inl e \<Rightarrow> Inl e | Inr i \<Rightarrow> by_value i) cs =
           Inl ValueError \<and> CHR ''0'' \<in> set cs
         \<or> (\<exists>w. map_err (\<lambda>s. case int_str [s] 10 of Inl e \<Rightarrow> Inl e | Inr i \<Rightarrow> by_value i) cs = Inr w
                 \<and> length w = length cs)
           \<and> CHR ''0'' \<notin> set cs" by simp
  from decode_octal_char [OF d(1,2)] ih show ?case
    unfolding d(3) by (elim disjE conjE exE) auto
qed

text \<open>
  C6, as stated, fails at \<open>8 = 0o10\<close>: the rendering keeps a digit 0 after its leading
  zeros are stripped, but \<open>strip('0')\<close> removes zeros at the end too and the constructor
  returns the word of the single symbol 1.
\<close>

theorem packed_word_trailing_zero_counterexample:
  "drop 2 (oct 8) = ''10'' \<and> SolresolWord_init (WInt 8) Full = Inr [DO]"
  by code_simp

text \<open>
  C6, amended. Constructing a word from a non-negative integer fails with \<open>ValueError\<close>
  whenever its base-8 rendering, stripped of the zero digits at both ends, still contains a
  digit 0, that is a zero between two non-zero digits; zeros at the end are stripped like
  leading ones and cause no failure, and otherwise the word has one symbol per remaining
  digit. A digit above 7 does not occur in a base-8 rendering.
\<close>

theorem packed_word_inner_zero:
  assumes "0 \<le> n"
  shows "(CHR ''0'' \<in> set (strip0 (oct_digits n)) \<longrightarrow>
            SolresolWord_init (WInt n) syn = Inl ValueError) \<and>
         (CHR ''0'' \<notin> set (strip0 (oct_digits n)) \<longrightarrow>
            (\<exists>w. SolresolWord_init (WInt n) syn = Inr w \<and> length w = length (strip0 (oct_digits n))))"
proof -
  have "\<forall>c\<in>set (strip0 (oct_digits n)). \<exists>d. 0 \<le> d \<and> d < 8 \<and> c = digit_char d"
    using oct_digits_chars [OF assms] set_strip0 [of "oct_digits n"] by blast
  from map_err_octal [OF this] show ?thesis
    using assms by (auto simp: oct_def)
qed

theorem packed_word_inner_zero_witness:
  "(0::int) \<le> 65 \<and> CHR ''0'' \<in> set (strip0 (oct_digits 65)) \<and>
   SolresolWord_init (WInt 65) Full = Inl ValueError"
proof -
  have a: "(0::int) \<le> 65" by simp
  have b: "CHR ''0'' \<in> set (strip0 (oct_digits 65))" by code_simp
  show ?thesis using a b packed_word_inner_zero [OF a, of Full] by blast
qed

text \<open>
  C7, as stated, fails at the string \<open>000\<close>: nothing is left after the strip, the
  comprehension runs over no character, and the constructor returns a word with no symbol.
\<close>

theorem numeric_zeros_counterexample:
  "strip0 ''000'' = [] \<and> SolresolWord_init (WStr ''000'') Num = Inr []"
  by code_simp

text \<open>
  C7, amended. Parsing a word in numeric syntax does not fail for an input string that is
  empty after stripping its zero characters: it returns the word with no symbols. A
  successfully constructed word has exactly one symbol per character left by the strip, so
  it has at least one symbol only when that remainder is not empty.
\<close>

theorem numeric_empty_after_strip:
  "(strip0 s = [] \<longrightarrow> SolresolWord_init (WStr s) Num = Inr []) \<and>
   (\<forall>w. SolresolWord_init (WStr s) Num = Inr w \<longrightarrow> length w = length (strip0 s))"
  by (auto dest: map_err_length)

theorem numeric_empty_after_strip_witness:
  "strip0 ''00'' = [] \<and> SolresolWord_init (WStr ''00'') Num = Inr []"
proof -
  have a: "strip0 ''00'' = []" by code_simp
  show ?thesis using a numeric_empty_after_strip [of "''00''"] by blast
qed

section \<open>The full syntax\<close>

lemma full_loop_slices:
  "(\<exists>e. full_loop acc w = Inl e) \<longleftrightarrow> (\<exists>t\<in>set (lookup_slices w). map_of members t = None)"
proof (induction acc w rule: full_loop.induct)
  case (1 acc word)
  show ?case
  proof (cases "length word > 0")
    case False
    then show ?thesis by (simp add: full_loop.simps lookup_slices.simps)
  next
    case True
    note ne = this
    show ?thesis
    proof (cases "startswith (lower word) ''sol'' \<and> \<not> startswith (lower word) ''sola''")
      case True
      have "full_loop acc word = full_loop (acc @ [SOL]) (drop 3 word)"
        using ne True by (subst full_loop.simps) simp
      moreover have "lookup_slices word = lookup_slices (drop 3 word)"
        using ne True by (subst lookup_slices.simps) simp
      ultimately show ?thesis using "1.IH"(1) [OF ne True] by simp
    next
      case False
      have ls: "lookup_slices word = take 2 word # lookup_slices (drop 2 word)"
        using ne False by (subst lookup_slices.simps) auto
      show ?thesis
      proof (cases "map_of members (take 2 word)")
        case None
        then have "full_loop acc word = Inl (KeyError (take 2 word))"
          using ne False by (subst full_loop.simps) (auto simp: by_name_def)
        with None ls show ?thesis by simp
      next
        case (Some s)
        then have bn: "by_name (take 2 word) = Inr s" by (simp add: by_name_def)
        then have "full_loop acc word = full_loop (acc @ [s]) (drop 2 word)"
          using ne False by (subst full_loop.simps) auto
        then show ?thesis using "1.IH"(2) [OF ne False bn] Some ls by simp
      qed
    qed
  qed
qed

lemma full_loop_KeyError:
  "full_loop acc w = Inl e \<longleftrightarrow>
   (\<exists>t. find (\<lambda>t. map_of members t = None) (lookup_slices w) = Some t \<and> e = KeyError t)"
proof (induction acc w rule: full_loop.induct)
  case (1 acc word)
  show ?case
  proof (cases "length word > 0")
    case False
    then show ?thesis by (simp add: full_loop.simps lookup_slices.simps)
  next
    case True
    note ne = this
    show ?thesis
    proof (cases "startswith (lower word) ''sol'' \<and> \<not> startswith (lower word) ''sola''")
      case True
      have "full_loop acc word = full_loop (acc @ [SOL]) (drop 3 word)"
        using ne True by (subst full_loop.simps) simp
      moreover have "lookup_slices word = lookup_slices (drop 3 word)"
        using ne True by (subst lookup_slices.simps) simp
      ultimately show ?thesis using "1.IH"(1) [OF ne True] by simp
    next
      case False
      have ls: "lookup_slices word = take 2 word # lookup_slices (drop 2 word)"
        using ne False by (subst lookup_slices.simps) auto
      show ?thesis
      proof (cases "map_of members (take 2 word)")
        case None
        then have "full_loop acc word = Inl (KeyError (take 2 word))"
          using ne False by (subst full_loop.simps) (auto simp: by_name_def)
        with None ls show ?thesis by auto
      next
        case (Some s)
        then have bn: "by_name (take 2 word) = Inr s" by (simp add: by_name_def)
        then have "full_loop acc word = full_loop (acc @ [s]) (drop 2 word)"
          using ne False by (subst full_loop.simps) auto
        then show ?thesis using "1.IH"(2) [OF ne False bn] Some ls by simp
      qed
    qed
  qed
qed

text \<open>
  C8, as stated, fails at the string \<open>dod\<close>: after \<open>do\<close> a single character is left,
  the slice \<open>word[:2]\<close> is that one character \<open>d\<close>, which is a name of the enum, and the
  constructor returns the word of the symbols 1, 1 instead of failing.
\<close>

theorem full_trailing_letter_counterexample:
  "SolresolWord_init (WStr ''dod'') Full = Inr [DO, DO]"
  by code_simp

text \<open>
  C8, amended. Parsing a word in full syntax fails exactly when some slice handed to the
  lookup by name (two characters, or the single last character when only one remains) is
  not a name of the enum, and the failure is then the \<open>KeyError\<close> of the first such slice; a
  last single character is looked up as a one-letter name and accepted when it is one.
\<close>

theorem full_fails_iff_unknown_slice:
  "((\<exists>e. SolresolWord_init (WStr w) Full = Inl e) \<longleftrightarrow>
      (\<exists>t\<in>set (lookup_slices w). map_of members t = None)) \<and>
   (\<forall>e. SolresolWord_init (WStr w) Full = Inl e \<longleftrightarrow>
      (\<exists>t. find (\<lambda>t. map_of members t = None) (lookup_slices w) = Some t \<and> e = KeyError t)) \<and>
   full_loop acc [c] =
     (case by_name [c] of Inl e \<Rightarrow> Inl e | Inr s \<Rightarrow> Inr (acc @ [s]))"
proof (intro conjI allI)
  show "(\<exists>e. SolresolWord_init (WStr w) Full = Inl e) \<longleftrightarrow>
      (\<exists>t\<in>set (lookup_slices w). map_of members t = None)"
    using full_loop_slices [of "[]" w] by simp
  show "SolresolWord_init (WStr w) Full = Inl e \<longleftrightarrow>
      (\<exists>t. find (\<lambda>t. map_of members t = None) (lookup_slices w) = Some t \<and> e = KeyError t)" for e
    using full_loop_KeyError [of "[]" w e] by simp
  have "\<not> startswith (lower [c]) ''sol''" by (simp add: startswith_def lower_def)
  then show "full_loop acc [c] =
     (case by_name [c] of Inl e \<Rightarrow> Inl e | Inr s \<Rightarrow> Inr (acc @ [s]))"
    by (subst full_loop.simps) (simp add: full_loop.simps split: sum.splits)
qed

theorem full_fails_iff_unknown_slice_witness:
  "(\<exists>t\<in>set (lookup_slices ''dox''). map_of members t = None) \<and>
   find (\<lambda>t. map_of members t = None) (lookup_slices ''dox'') = Some ''x'' \<and>
   SolresolWord_init (WStr ''dox'') Full = Inl (KeyError ''x'')"
proof -
  have a: "\<exists>t\<in>set (lookup_slices ''dox''). map_of members t = None" by code_simp
  have b: "find (\<lambda>t. map_of members t = None) (lookup_slices ''dox'') = Some ''x''" by code_simp
  show ?thesis using a b full_fails_iff_unknown_slice [of "''dox''" "[]" "CHR ''d''"] by blast
qed

lemma lower_names:
  "lower ''DO'' = ''do''" "lower ''RE'' = ''re''" "lower ''MI'' = ''mi''" "lower ''FA'' = ''fa''"
  "lower ''SOL'' = ''sol''" "lower ''LA'' = ''la''" "lower ''SI'' = ''si''"
  by code_simp+

lemma lower_append: "lower (a @ b) = lower a @ lower b"
  by (simp add: lower_def)

lemma fulltext_Cons: "fulltext (x # xs) = lower (name_of x) @ fulltext xs"
  by (simp add: fulltext_def lower_append)

lemma fulltext_Nil: "fulltext [] = []"
  by (simp add: fulltext_def lower_def)

lemma lower_small:
  "lower ''do'' = ''do''" "lower ''re'' = ''re''" "lower ''mi'' = ''mi''" "lower ''fa'' = ''fa''"
  "lower ''sol'' = ''sol''" "lower ''la'' = ''la''" "lower ''si'' = ''si''"
  by code_simp+

lemma lower_fulltext: "lower (fulltext w) = fulltext w"
proof (induction w)
  case Nil
  show ?case by (simp add: fulltext_Nil lower_def)
next
  case (Cons x w)
  then show ?case
    by (cases x) (simp_all only: fulltext_Cons lower_append name_of.simps lower_names lower_small)
qed

lemma fulltext_not_a: "take 1 (fulltext w) \<noteq> ''a''"
proof (cases w)
  case Nil
  then show ?thesis by (simp add: fulltext_Nil)
next
  case (Cons x xs)
  then show ?thesis by (cases x) (simp_all add: fulltext_Cons lower_names)
qed

lemma by_name_tokens:
  "by_name ''do'' = Inr DO" "by_name ''re'' = Inr RE" "by_name ''mi'' = Inr MI"
  "by_name ''fa'' = Inr FA" "by_name ''la'' = Inr LA" "by_name ''si'' = Inr SI"
  by code_simp+

lemma full_loop_two:
  assumes "by_name [a, b] = Inr s" "lower (a # b # rest) = a # b # rest"
    and "a \<noteq> CHR ''s'' \<or> b \<noteq> CHR ''o''"
  shows "full_loop acc (a # b # rest) = full_loop (acc @ [s]) rest"
proof -
  have "\<not> startswith (lower (a # b # rest)) ''sol''"
    unfolding assms(2) using assms(3) by (auto simp: startswith_def)
  then show ?thesis using assms(1) by (subst full_loop.simps) simp
qed

lemma full_loop_sol:
  assumes "lower rest = rest" "take 1 rest \<noteq> ''a''"
  shows "full_loop acc (''sol'' @ rest) = full_loop (acc @ [SOL]) rest"
proof -
  have l: "lower (''sol'' @ rest) = ''sol'' @ rest"
    unfolding lower_append lower_small assms(1) ..
  have "startswith (lower (''sol'' @ rest)) ''sol''"
    unfolding l by (simp add: startswith_def)
  moreover have "\<not> startswith (lower (''sol'' @ rest)) ''sola''"
    unfolding l using assms(2) by (simp add: startswith_def)
  ultimately show ?thesis
    by (subst full_loop.simps) simp
qed

lemma full_loop_fulltext: "full_loop acc (fulltext w) = Inr (acc @ w)"
proof (induction w arbitrary: acc)
  case Nil
  show ?case by (simp add: fulltext_Nil full_loop.simps)
next
  case (Cons x w)
  have l: "lower (fulltext (x # w)) = fulltext (x # w)" by (rule lower_fulltext)
  show ?case
  proof (cases x)
    case SOL
    have "full_loop acc (fulltext (x # w)) = full_loop (acc @ [SOL]) (fulltext w)"
      unfolding SOL fulltext_Cons name_of.simps lower_names
      using lower_fulltext fulltext_not_a by (rule full_loop_sol)
    then show ?thesis using Cons.IH [of "acc @ [SOL]"] SOL by simp
  qed (use l Cons.IH [of "acc @ [x]"] in
        \<open>simp_all add: fulltext_Cons lower_names by_name_tokens full_loop_two\<close>)
qed

text \<open>
  C9. For every word \<open>w\<close> of one to five symbols, parsing \<open>w.fulltext\<close> (the lowercased
  concatenation of the member names, \<open>sol\<close> for the fifth symbol) in full syntax yields
  the symbol sequence of \<open>w\<close>, also when the fifth symbol is followed by the sixth.
\<close>

theorem fulltext_roundtrip:
  "w \<noteq> [] \<Longrightarrow> length w \<le> 5 \<Longrightarrow> SolresolWord_init (WStr (fulltext w)) Full = Inr w"
  using full_loop_fulltext [of "[]" w] by simp

theorem fulltext_roundtrip_witness:
  "[MI, SOL, LA, SOL, SI] \<noteq> [] \<and> length [MI, SOL, LA, SOL, SI] \<le> 5 \<and>
   SolresolWord_init (WStr (fulltext [MI, SOL, LA, SOL, SI])) Full = Inr [MI, SOL, LA, SOL, SI]"
  using fulltext_roundtrip [of "[MI, SOL, LA, SOL, SI]"] by simp

section \<open>The ses syntax\<close>

lemma sescons_simps:
  "sescons DO = ''p''" "sescons RE = ''k''" "sescons MI = ''m''" "sescons FA = ''f''"
  "sescons SOL = ''s''" "sescons LA = ''l''" "sescons SI = ''t''"
  by code_simp+

lemma sesvowel_simps:
  "sesvowel DO = ''o''" "sesvowel RE = ''e''" "sesvowel MI = ''i''" "sesvowel FA = ''a''"
  "sesvowel SOL = ''u''" "sesvowel LA = ''ai''" "sesvowel SI = ''au''"
  by code_simp+

lemma enumerate_alternate:
  "concat (map (\<lambda>(ix, ltr). if ix mod 2 = 0 then sescons ltr else sesvowel ltr) (enumerate n w)) =
   alternate (even n) w"
  by (induction w arbitrary: n) (simp_all add: even_iff_mod_2_eq_zero [symmetric])

lemma ses_alternate: "ses w = alternate (length w \<noteq> 1) w"
proof (cases "length w = 1")
  case True
  then obtain x where "w = [x]" by (cases w) auto
  then show ?thesis by (simp add: ses_def)
next
  case False
  then show ?thesis using enumerate_alternate [of 0 w] by (simp add: ses_def)
qed

lemma alternate_cons_head: "take 1 (alternate True w) \<noteq> ''i''"
proof (cases w)
  case Nil
  then show ?thesis by simp
next
  case (Cons x xs)
  then show ?thesis by (cases x) (simp_all add: sescons_simps)
qed

lemma alternate_ai_cons_head: "take 1 (alternate_ai True w) \<noteq> ''u''"
proof (cases w)
  case Nil
  then show ?thesis by simp
next
  case (Cons x xs)
  then show ?thesis by (cases x) (simp_all add: sescons_simps)
qed

lemma replace_ai: "str_replace ''ai'' ''l'' (alternate b w) = alternate_ai b w"
proof (induction w arbitrary: b)
  case Nil
  show ?case by simp
next
  case (Cons x w)
  show ?case
  proof (cases b)
    case True
    with Cons.IH [of False] show ?thesis
      by (cases x) (simp_all add: sescons_simps startswith_def)
  next
    case False
    with Cons.IH [of True] alternate_cons_head [of w] show ?thesis
      by (cases x) (simp_all add: sesvowel_simps startswith_def)
  qed
qed

lemma replace_au: "str_replace ''au'' ''t'' (alternate_ai b w) = alternate_letters b w"
proof (induction w arbitrary: b)
  case Nil
  show ?case by simp
next
  case (Cons x w)
  show ?case
  proof (cases b)
    case True
    with Cons.IH [of False] show ?thesis
      by (cases x) (simp_all add: sescons_simps startswith_def)
  next
    case False
    with Cons.IH [of True] alternate_ai_cons_head [of w] show ?thesis
      by (cases x) (simp_all add: sesvowel_simps startswith_def)
  qed
qed

lemma by_name_letters:
  "by_name ''p'' = Inr DO" "by_name ''k'' = Inr RE" "by_name ''m'' = Inr MI"
  "by_name ''f'' = Inr FA" "by_name ''s'' = Inr SOL" "by_name ''l'' = Inr LA"
  "by_name ''t'' = Inr SI" "by_name ''o'' = Inr DO" "by_name ''e'' = Inr RE"
  "by_name ''i'' = Inr MI" "by_name ''a'' = Inr FA" "by_name ''u'' = Inr SOL"
  by code_simp+

lemma by_name_ses_letter: "by_name [ses_letter b x] = Inr x"
  by (cases x; cases b) (simp_all add: sescons_simps sesvowel_simps by_name_letters)

lemma decode_letters: "map_err (\<lambda>s. by_name [s]) (alternate_letters b w) = Inr w"
  by (induction w arbitrary: b) (simp_all add: by_name_ses_letter del: ses_letter.simps)

text \<open>
  C10. For every non-empty word \<open>w\<close>, parsing the string \<open>w.ses\<close> in ses syntax (which
  rewrites \<open>ai\<close> to \<open>l\<close> and \<open>au\<close> to \<open>t\<close>, then looks every character up by name) yields
  the symbol sequence of \<open>w\<close>, for a word of one symbol (the bare vowel) and for longer
  words (consonants at even positions, vowels at odd ones).
\<close>

theorem ses_roundtrip: "w \<noteq> [] \<Longrightarrow> SolresolWord_init (WStr (ses w)) Ses = Inr w"
  by (simp add: ses_alternate replace_ai replace_au decode_letters)

theorem ses_roundtrip_witness:
  "[LA] \<noteq> [] \<and> SolresolWord_init (WStr (ses [LA])) Ses = Inr [LA] \<and>
   [FA, LA, SI, SI, LA, FA, SOL] \<noteq> [] \<and>
   SolresolWord_init (WStr (ses [FA, LA, SI, SI, LA, FA, SOL])) Ses = Inr [FA, LA, SI, SI, LA, FA, SOL]"
  using ses_roundtrip [of "[LA]"] ses_roundtrip [of "[FA, LA, SI, SI, LA, FA, SOL]"] by simp

end
